theory Spec2Isabelle
  imports
    Complex_Main
    "HOL-Library.Sublist"
    "HOL-Library.Char_ord"
    "HOL-Library.List_Lexorder"
    "HOL-Library.Product_Lexorder"
begin

section \<open>Job application copilot: the matching and scoring engine of agent.py\<close>

text \<open>
  A shallow embedding of the pure core of \<^verbatim>\<open>src/agent.py\<close>: \<^verbatim>\<open>normalize\<close>,
  \<^verbatim>\<open>extract_keywords\<close>, \<^verbatim>\<open>find_red_flags\<close>, \<^verbatim>\<open>safe_rewrite_bullet\<close>,
  \<^verbatim>\<open>tokenize_words\<close>, \<^verbatim>\<open>rerank_phrases_diverse\<close>, \<^verbatim>\<open>is_good_phrase\<close>,
  \<^verbatim>\<open>extract_phrases\<close>, \<^verbatim>\<open>phrase_coverage\<close> and the keyword part of
  \<^verbatim>\<open>run_agent\<close>.

  A Python \<^verbatim>\<open>str\<close> is modelled as a \<^typ>\<open>string\<close>, one \<^typ>\<open>char\<close> per code point, so
  the model covers the texts whose code points are below 256 (ASCII and Latin-1). The
  character classes below are the ones Python 3 uses on that range: \<^verbatim>\<open>str.isspace\<close>
  (also the class \<^verbatim>\<open>\s\<close> of \<^verbatim>\<open>re\<close> on \<^verbatim>\<open>str\<close> patterns and the characters
  removed by \<^verbatim>\<open>str.strip()\<close> and separating the fields of \<^verbatim>\<open>str.split()\<close>),
  \<^verbatim>\<open>str.lower\<close>, and the class \<^verbatim>\<open>\w\<close> that decides \<^verbatim>\<open>\b\<close>.
\<close>

subsection \<open>Characters and the string primitives of Python\<close>

definition isspace :: "char \<Rightarrow> bool" where
  \<comment> \<open>TAB, LF, VT, FF, CR, FS, GS, RS, US, SPACE, NEL (0x85), NBSP (0xA0)\<close>
  "isspace c = (let n = (of_char c :: nat) in
     (9 \<le> n \<and> n \<le> 13) \<or> (28 \<le> n \<and> n \<le> 32) \<or> n = 133 \<or> n = 160)"

definition lower_char :: "char \<Rightarrow> char" where
  \<comment> \<open>A..Z and the Latin-1 capitals 0xC0..0xDE (without the multiplication sign 0xD7)\<close>
  "lower_char c = (let n = (of_char c :: nat) in
     if (65 \<le> n \<and> n \<le> 90) \<or> (192 \<le> n \<and> n \<le> 222 \<and> n \<noteq> 215)
     then char_of (n + 32) else c)"

definition lower :: "string \<Rightarrow> string" where
  "lower s = map lower_char s"

definition is_word_char :: "char \<Rightarrow> bool" where
  \<comment> \<open>the class \<^verbatim>\<open>\w\<close>: alphanumeric in the sense of \<^verbatim>\<open>str.isalnum\<close>, or the underscore\<close>
  "is_word_char c = (let n = (of_char c :: nat) in
     (48 \<le> n \<and> n \<le> 57) \<or> (65 \<le> n \<and> n \<le> 90) \<or> n = 95 \<or> (97 \<le> n \<and> n \<le> 122)
     \<or> n = 170 \<or> n = 178 \<or> n = 179 \<or> n = 181 \<or> n = 185 \<or> n = 186
     \<or> (188 \<le> n \<and> n \<le> 190) \<or> (192 \<le> n \<and> n \<le> 214) \<or> (216 \<le> n \<and> n \<le> 246)
     \<or> 248 \<le> n)"

definition strip :: "string \<Rightarrow> string" where
  "strip s = rev (dropWhile isspace (rev (dropWhile isspace s)))"

text \<open>Python's \<^verbatim>\<open>needle in haystack\<close> on strings is \<^const>\<open>sublist\<close>: a contiguous occurrence.\<close>

text \<open>\<^verbatim>\<open>re.sub(r"\s+", " ", text)\<close>: every maximal run of whitespace becomes one space.\<close>

function sub_ws_runs :: "string \<Rightarrow> string" where
  "sub_ws_runs [] = []"
| "sub_ws_runs (c # cs) =
     (if isspace c then CHR '' '' # sub_ws_runs (dropWhile isspace cs)
      else c # sub_ws_runs cs)"
  by pat_completeness auto
termination
  by (relation "measure length") (auto simp: length_dropWhile_le less_Suc_eq_le)

text \<open>
  \<^verbatim>\<open>re.sub(r"\s{2,}", " ", text)\<close>: every maximal run of two or more whitespace characters
  becomes one space; a single whitespace character stays as it is.
\<close>

function sub_ws_2plus :: "string \<Rightarrow> string" where
  "sub_ws_2plus [] = []"
| "sub_ws_2plus [c] = [c]"
| "sub_ws_2plus (c # d # cs) =
     (if isspace c \<and> isspace d then CHR '' '' # sub_ws_2plus (dropWhile isspace cs)
      else c # sub_ws_2plus (d # cs))"
  by pat_completeness auto
termination
  by (relation "measure length") (auto simp: length_dropWhile_le less_Suc_eq_le le_SucI)

subsection \<open>normalize\<close>

text \<open>
  \<^verbatim>\<open>text = "" if text is None else str(text); return re.sub(r"\s+", " ", text).strip().lower()\<close>.
  The argument is \<^term>\<open>None\<close> or a string.
\<close>

definition normalize :: "string option \<Rightarrow> string" where
  "normalize text =
     (let text = (case text of None \<Rightarrow> [] | Some s \<Rightarrow> s)
      in lower (strip (sub_ws_runs text)))"

subsection \<open>Configuration: the keyword banks\<close>

definition TECH_KEYWORDS :: "string list" where
  "TECH_KEYWORDS =
     [''python'', ''sql'', ''api'', ''rest'', ''fastapi'', ''flask'', ''docker'', ''git'',
      ''aws'', ''azure'', ''gcp'', ''linux'', ''windows'', ''powershell'',
      ''servicenow'', ''jira'', ''incident'', ''sla'', ''intune'', ''mdm'',
      ''troubleshooting'', ''automation'', ''llm'', ''prompt'', ''validation'']"

definition RED_FLAG_PHRASES :: "string list" where
  "RED_FLAG_PHRASES =
     [''unpaid'', ''pay to apply'', ''gift card'', ''telegram'', ''whatsapp'',
      ''kindly'', ''wire transfer'', ''check deposit'', ''remote equipment fee'']"

definition TECH_SIGNAL_WORDS :: "string list" where
  "TECH_SIGNAL_WORDS =
     [''windows'', ''linux'', ''mac'', ''microsoft'', ''azure'', ''aws'', ''gcp'',
      ''active'', ''directory'', ''vpn'', ''mfa'', ''intune'', ''servicenow'',
      ''jira'', ''ticket'', ''incident'', ''sla'', ''endpoint'', ''desktop'',
      ''hardware'', ''software'', ''network'', ''printer'', ''outlook'',
      ''exchange'', ''o365'', ''office'', ''sql'', ''python'', ''api'',
      ''powershell'', ''security'', ''firewall'', ''router'', ''switch'',
      ''server'', ''deployment'', ''imaging'', ''autopilot'', ''sccm'']"

definition STOPWORDS :: "string list" where
  "STOPWORDS =
     [''the'', ''and'', ''or'', ''a'', ''an'', ''to'', ''of'', ''in'', ''for'', ''with'', ''on'',
      ''at'', ''by'', ''from'', ''as'', ''is'', ''are'', ''be'',
      ''this'', ''that'', ''these'', ''those'', ''you'', ''your'', ''we'', ''our'', ''will'',
      ''can'', ''may'', ''must'', ''should'', ''have'',
      ''has'', ''had'', ''their'', ''they'', ''them'', ''it'', ''its'', ''not'', ''but'', ''if'',
      ''than'', ''then'', ''about'', ''into'', ''over'',
      ''within'', ''across'', ''per'', ''including'', ''etc'', ''join'', ''ability'',
      ''perform'', ''routine'', ''handle'', ''maintain'',
      ''collaborate'', ''improvement'', ''knowledge'']"

subsection \<open>Data structures\<close>

record SuggestedEdit =
  target :: string
  original :: string
  suggestion :: string
  rationale :: string
  needs_confirmation :: bool

subsection \<open>Word-boundary search\<close>

text \<open>
  \<^verbatim>\<open>\b\<close> holds at a position when exactly one of the characters before and after it is a
  word character; the two ends of the string count as non-word characters. The
  character before the position is \<open>prev\<close> (\<^term>\<open>None\<close> at the start), the text from the
  position on is \<open>rest\<close>.
\<close>

definition word_boundary :: "char option \<Rightarrow> string \<Rightarrow> bool" where
  "word_boundary prev rest =
     ((case prev of None \<Rightarrow> False | Some c \<Rightarrow> is_word_char c)
      \<noteq> (case rest of [] \<Rightarrow> False | c # _ \<Rightarrow> is_word_char c))"

definition match_word_at :: "char option \<Rightarrow> string \<Rightarrow> string \<Rightarrow> bool" where
  \<comment> \<open>the pattern \<^verbatim>\<open>\b\<close> w \<^verbatim>\<open>\b\<close>, with w taken literally, matches at the head of s\<close>
  "match_word_at prev w s =
     (word_boundary prev s \<and> prefix w s
      \<and> word_boundary (if w = [] then prev else Some (last w)) (drop (length w) s))"

text \<open>\<^verbatim>\<open>re.search(rf"\b{re.escape(w)}\b", t)\<close> finds a match at some position of t.\<close>

fun search_word :: "char option \<Rightarrow> string \<Rightarrow> string \<Rightarrow> bool" where
  "search_word prev w [] = match_word_at prev w []"
| "search_word prev w (c # cs) = (match_word_at prev w (c # cs) \<or> search_word (Some c) w cs)"

subsection \<open>extract_keywords, find_red_flags\<close>

text \<open>
  \<^verbatim>\<open>sorted(set(found), key=str.lower)\<close>: the distinct elements, sorted stably by their
  lower-case form. The order in which Python enumerates a set is not specified; it only
  shows between distinct elements with the same lower-case form, and the model
  enumerates the set as \<^const>\<open>remdups\<close> does.
\<close>

definition sorted_set_lower :: "string list \<Rightarrow> string list" where
  "sorted_set_lower xs = sort_key lower (remdups xs)"

definition extract_keywords :: "string \<Rightarrow> string list \<Rightarrow> string list" where
  "extract_keywords text keyword_list =
     (let t = normalize (Some text);
          found = filter (\<lambda>kw. search_word None (lower kw) t) keyword_list
      in sorted_set_lower found)"

definition find_red_flags :: "string \<Rightarrow> string list" where
  "find_red_flags job_text =
     (let t = normalize (Some job_text)
      in filter (\<lambda>p. sublist p t) RED_FLAG_PHRASES)"

subsection \<open>safe_rewrite_bullet\<close>

text \<open>
  \<^verbatim>\<open>re.sub(r"\bvery\b|\breally\b|\bjust\b", "", b, flags=re.IGNORECASE)\<close>. The alternatives
  are tried in order at each position; on the code points below 256 only the ASCII
  capitals match the letters of the three words without regard to case.
\<close>

definition match_word_ci :: "char option \<Rightarrow> string \<Rightarrow> string \<Rightarrow> bool" where
  "match_word_ci prev w s =
     (word_boundary prev s \<and> length w \<le> length s \<and> lower (take (length w) s) = w
      \<and> word_boundary (Some (s ! (length w - 1))) (drop (length w) s))"

definition filler_match :: "char option \<Rightarrow> string \<Rightarrow> nat option" where
  \<comment> \<open>the length of the match of the alternation at the head of s, if there is one\<close>
  "filler_match prev s =
     (if match_word_ci prev ''very'' s then Some 4
      else if match_word_ci prev ''really'' s then Some 6
      else if match_word_ci prev ''just'' s then Some 4
      else None)"

text \<open>
  The scan deletes each match and resumes after it: \<open>k\<close> counts the characters of the
  current match still to delete, \<open>prev\<close> is the character before the position in the
  original string.
\<close>

fun del_fillers :: "nat \<Rightarrow> char option \<Rightarrow> string \<Rightarrow> string" where
  "del_fillers k prev [] = []"
| "del_fillers k prev (c # cs) =
     (if 0 < k then del_fillers (k - 1) (Some c) cs
      else (case filler_match prev (c # cs) of
              Some m \<Rightarrow> del_fillers (m - 1) (Some c) cs
            | None \<Rightarrow> c # del_fillers 0 (Some c) cs))"

definition HIGH_SIGNAL :: "string list" where
  "HIGH_SIGNAL =
     [''troubleshooting'', ''automation'', ''incident'', ''sla'', ''api'', ''sql'', ''python'', ''git'']"

definition TOOL_NAMES :: "string list" where
  "TOOL_NAMES = [''python'', ''sql'', ''api'', ''git'']"

text \<open>
  The loop that picks \<^verbatim>\<open>add_kw\<close>: a keyword whose lower-case form occurs in the
  normalized bullet is skipped (\<^verbatim>\<open>continue\<close>), the first other keyword of the
  high-signal set is taken (\<^verbatim>\<open>break\<close>); \<^term>\<open>None\<close> when the loop runs out.
\<close>

fun select_add_kw :: "string \<Rightarrow> string list \<Rightarrow> string option" where
  "select_add_kw b [] = None"
| "select_add_kw b (kw # kws) =
     (if sublist (lower kw) (normalize (Some b)) then select_add_kw b kws
      else if lower kw \<in> set HIGH_SIGNAL then Some kw
      else select_add_kw b kws)"

definition tighten :: "string \<Rightarrow> string" where
  "tighten b = sub_ws_2plus (strip (del_fillers 0 None b))"

text \<open>
  The only call of \<^verbatim>\<open>str.upper\<close> is on the literal \<^verbatim>\<open>'sql'\<close>, so the model needs it on
  ASCII letters only.
\<close>

definition upper_char :: "char \<Rightarrow> char" where
  "upper_char c = (let n = (of_char c :: nat) in
     if 97 \<le> n \<and> n \<le> 122 then char_of (n - 32) else c)"

definition tool_mention :: "string \<Rightarrow> string" where
  "tool_mention add_kw =
     '' (Tools used where applicable: ''
       @ (if add_kw = ''sql'' then map upper_char add_kw else add_kw) @ ''.)''"

definition focus_mention :: "string \<Rightarrow> string" where
  "focus_mention add_kw = '' (Focus: '' @ add_kw @ ''.)''"

text \<open>
  The rationale of the source holds one character above code point 255, the dash in
  ``posting, confirm''; it is written \<^verbatim>\<open>--\<close> here. A \<^verbatim>\<open>None\<close> or empty \<^verbatim>\<open>add_kw\<close> is
  false in \<^verbatim>\<open>if add_kw:\<close>.
\<close>

definition safe_rewrite_bullet :: "string \<Rightarrow> string list \<Rightarrow> SuggestedEdit option" where
  "safe_rewrite_bullet bullet target_keywords =
     (let b = strip bullet in
      if b = [] \<or> length b < 20 then None
      else
        let tightened = tighten b;
            add_kw = select_add_kw b target_keywords;
            rationale0 = ''Tightened wording for clarity.'';
            (suggestion, needs_conf, rat) =
              (case add_kw of
                 None \<Rightarrow> (tightened, False, rationale0)
               | Some kw \<Rightarrow>
                   if kw = [] then (tightened, False, rationale0)
                   else if lower kw \<in> set TOOL_NAMES then
                     (tightened @ tool_mention kw, True,
                      rationale0 @ '' Added a tool mention to align with the posting--confirm you actually used ''
                        @ kw @ ''.'')
                   else
                     (tightened @ focus_mention kw, False,
                      rationale0 @ '' Added focus keyword '' @ [CHR 0x27] @ kw @ [CHR 0x27]
                        @ '' to better match the posting.''))
        in if suggestion = b then None
           else Some \<lparr> target = ''bullet'', original = b, suggestion = suggestion,
                       rationale = rat, needs_confirmation = needs_conf \<rparr>)"

subsection \<open>tokenize_words\<close>

text \<open>
  \<^verbatim>\<open>re.findall\<close> of a character class with \<^verbatim>\<open>+\<close> returns the maximal runs of the class,
  left to right; \<^verbatim>\<open>str.split()\<close> returns the maximal runs of non-whitespace.
\<close>

function findall_runs :: "(char \<Rightarrow> bool) \<Rightarrow> string \<Rightarrow> string list" where
  "findall_runs P [] = []"
| "findall_runs P (c # cs) =
     (if P c then (c # takeWhile P cs) # findall_runs P (dropWhile P cs)
      else findall_runs P cs)"
  by pat_completeness auto
termination
  by (relation "measure (\<lambda>(P, s). length s)") (auto simp: length_dropWhile_le less_Suc_eq_le)

definition split :: "string \<Rightarrow> string list" where
  "split s = findall_runs (\<lambda>c. \<not> isspace c) s"

definition is_token_char :: "char \<Rightarrow> bool" where
  \<comment> \<open>the class \<^verbatim>\<open>[a-z0-9\+\#\.]\<close>\<close>
  "is_token_char c = (let n = (of_char c :: nat) in
     (97 \<le> n \<and> n \<le> 122) \<or> (48 \<le> n \<and> n \<le> 57) \<or> n = 43 \<or> n = 35 \<or> n = 46)"

definition tokenize_words :: "string \<Rightarrow> string list" where
  "tokenize_words text =
     (let t = normalize (Some text);
          words = findall_runs is_token_char t
      in filter (\<lambda>w. w \<noteq> [] \<and> w \<notin> set STOPWORDS \<and> 2 < length w) words)"

subsection \<open>rerank_phrases_diverse\<close>

text \<open>\<^verbatim>\<open>max(tokens, key=len)\<close> returns the first of the longest tokens.\<close>

definition max_by_len :: "string \<Rightarrow> string list \<Rightarrow> string" where
  "max_by_len t ts = foldl (\<lambda>best w. if length best < length w then w else best) t ts"

definition anchor :: "string \<Rightarrow> string" where
  "anchor p = (case split p of [] \<Rightarrow> p | t # ts \<Rightarrow> max_by_len t ts)"

definition counts_get :: "(string \<rightharpoonup> int) \<Rightarrow> string \<Rightarrow> int" where
  \<comment> \<open>\<^verbatim>\<open>counts.get(anchor, 0)\<close>\<close>
  "counts_get counts a = (case counts a of None \<Rightarrow> 0 | Some c \<Rightarrow> c)"

text \<open>The loop over the phrases: the state is the dictionary \<open>counts\<close> and the list \<open>out\<close>.\<close>

fun rerank_loop ::
  "int \<Rightarrow> (string \<rightharpoonup> int) \<times> string list \<Rightarrow> string list \<Rightarrow> (string \<rightharpoonup> int) \<times> string list"
where
  "rerank_loop max_per_token (counts, out) [] = (counts, out)"
| "rerank_loop max_per_token (counts, out) (p # ps) =
     (let a = anchor p;
          c = counts_get counts a + 1;
          counts' = counts(a \<mapsto> c)
      in rerank_loop max_per_token
           (counts', if c \<le> max_per_token then out @ [p] else out) ps)"

definition rerank_phrases_diverse :: "string list \<Rightarrow> int \<Rightarrow> string list" where
  "rerank_phrases_diverse phrases max_per_token =
     snd (rerank_loop max_per_token (Map.empty, []) phrases)"

definition rerank_default_max_per_token :: int where
  \<comment> \<open>the default of the parameter \<^verbatim>\<open>max_per_token\<close>\<close>
  "rerank_default_max_per_token = 3"

subsection \<open>is_good_phrase, extract_phrases\<close>

definition is_good_phrase :: "string \<Rightarrow> bool" where
  "is_good_phrase p = list_ex (\<lambda>w. w \<in> set TECH_SIGNAL_WORDS) (split (lower p))"

text \<open>
  A Python slice \<^verbatim>\<open>xs[i:j]\<close> on integers: a negative index counts from the end, and both
  are clamped to the list.
\<close>

definition slice_index :: "int \<Rightarrow> nat \<Rightarrow> nat" where
  "slice_index k len = (if k < 0 then nat (max 0 (k + int len)) else min (nat k) len)"

definition slice :: "'a list \<Rightarrow> int \<Rightarrow> int \<Rightarrow> 'a list" where
  "slice xs i j =
     (let a = slice_index i (length xs); b = slice_index j (length xs)
      in take (b - a) (drop a xs))"

fun join :: "string list \<Rightarrow> string" where
  \<comment> \<open>\<^verbatim>\<open>" ".join(ws)\<close>\<close>
  "join [] = []"
| "join [w] = w"
| "join (w # ws) = w @ '' '' @ join ws"

definition ngrams :: "string list \<Rightarrow> int \<Rightarrow> string list" where
  \<comment> \<open>\<^verbatim>\<open>for i in range(len(words) - n + 1): phrases.append(" ".join(words[i:i+n]))\<close>\<close>
  "ngrams words n = map (\<lambda>i. join (slice words i (i + n))) [0 .. int (length words) - n]"

text \<open>
  The dictionary \<^verbatim>\<open>freq\<close> keeps its keys in insertion order: an association list, a
  new key going to the end.
\<close>

fun freq_bump :: "string \<Rightarrow> (string \<times> int) list \<Rightarrow> (string \<times> int) list" where
  \<comment> \<open>\<^verbatim>\<open>freq[p] = freq.get(p, 0) + 1\<close>\<close>
  "freq_bump p [] = [(p, 1)]"
| "freq_bump p ((q, c) # rest) = (if q = p then (q, c + 1) # rest else (q, c) # freq_bump p rest)"

definition count_freq :: "string list \<Rightarrow> (string \<times> int) list" where
  "count_freq phrases = foldl (\<lambda>freq p. freq_bump p freq) [] phrases"

definition extract_phrases_default_n :: int where
  \<comment> \<open>the default of the parameter \<^verbatim>\<open>n\<close>\<close>
  "extract_phrases_default_n = 2"

definition extract_phrases_default_top_k :: int where
  "extract_phrases_default_top_k = 25"

text \<open>
  The body of \<^verbatim>\<open>extract_phrases\<close> up to the call of the rerank: the ranked phrases that
  pass the relevance filter.
\<close>

definition candidate_phrases :: "string \<Rightarrow> int \<Rightarrow> string list" where
  "candidate_phrases text n =
     (let words = tokenize_words text;
          phrases = ngrams words n;
          freq = count_freq phrases;
          items = sort_key (\<lambda>x. (- snd x, fst x)) freq;
          filtered = map fst (filter (\<lambda>(p, cnt). 1 < cnt) items);
          filtered = filter is_good_phrase filtered;
          filtered = (if length filtered < 10
                      then filter is_good_phrase (map fst items)
                      else filtered)
      in filtered)"

text \<open>The rest: \<^verbatim>\<open>filtered = rerank_phrases_diverse(filtered, max_per_token=2); return filtered[:top_k]\<close>.\<close>

definition extract_phrases :: "string \<Rightarrow> int \<Rightarrow> int \<Rightarrow> string list" where
  "extract_phrases text n top_k =
     (let filtered = candidate_phrases text n;
          filtered = rerank_phrases_diverse filtered 2
      in slice filtered 0 top_k)"

subsection \<open>phrase_coverage\<close>

text \<open>
  The coverage is the quotient of two list lengths, at most 25 each. It is modelled as
  the exact rational; it is 1 or 0 exactly when the Python float is \<^verbatim>\<open>1.0\<close> or \<^verbatim>\<open>0.0\<close>.
\<close>

definition phrase_coverage :: "string \<Rightarrow> string \<Rightarrow> rat \<times> string list \<times> string list" where
  "phrase_coverage resume_text job_text =
     (let job_phrases = extract_phrases job_text 3 25;
          resume_norm = normalize (Some resume_text);
          overlap = filter (\<lambda>p. sublist p resume_norm) job_phrases;
          missing = filter (\<lambda>p. \<not> sublist p resume_norm) job_phrases;
          coverage = (if job_phrases \<noteq> []
                      then of_nat (length overlap) / of_nat (length job_phrases) else 0)
      in (coverage, overlap, missing))"

subsection \<open>run_agent: the keyword lists\<close>

text \<open>
  \<^verbatim>\<open>run_agent\<close> matches both texts against \<^verbatim>\<open>TECH_KEYWORDS\<close>; the bank is a parameter
  here. \<^verbatim>\<open>overlap\<close> and \<^verbatim>\<open>missing\<close> are the lists before the phrase entries are appended.
\<close>

definition bank_overlap :: "string list \<Rightarrow> string \<Rightarrow> string \<Rightarrow> string list" where
  "bank_overlap K resume_text job_text =
     (let resume_kws = extract_keywords resume_text K;
          job_kws = extract_keywords job_text K
      in sorted_set_lower (filter (\<lambda>k. k \<in> set job_kws) resume_kws))"

definition bank_missing :: "string list \<Rightarrow> string \<Rightarrow> string \<Rightarrow> string list" where
  "bank_missing K resume_text job_text =
     (let resume_kws = extract_keywords resume_text K;
          job_kws = extract_keywords job_text K
      in sorted_set_lower (filter (\<lambda>k. k \<notin> set resume_kws) job_kws))"

record MatchLists =
  overlap_keywords :: "string list"
  missing_keywords :: "string list"
  red_flags :: "string list"

definition run_agent :: "string \<Rightarrow> string \<Rightarrow> MatchLists" where
  \<comment> \<open>the list fields of \<^verbatim>\<open>MatchScores\<close>\<close>
  "run_agent resume_text job_text =
     (let overlap = bank_overlap TECH_KEYWORDS resume_text job_text;
          missing = bank_missing TECH_KEYWORDS resume_text job_text;
          (phrase_cov, phrase_overlap, phrase_missing) = phrase_coverage resume_text job_text
      in \<lparr> overlap_keywords = overlap @ map (\<lambda>p. ''[PHRASE] '' @ p) (slice phrase_overlap 0 10),
           missing_keywords = missing @ map (\<lambda>p. ''[PHRASE] '' @ p) (slice phrase_missing 0 15),
           red_flags = find_red_flags job_text \<rparr>)"

subsection \<open>Auxiliary predicates\<close>

text \<open>
  A string is whitespace-collapsed when each of its whitespace characters is a space that
  is not followed by another whitespace character.
\<close>

fun ws_collapsed :: "string \<Rightarrow> bool" where
  "ws_collapsed [] = True"
| "ws_collapsed [c] = (if isspace c then c = CHR '' '' else True)"
| "ws_collapsed (c # d # cs) =
     ((if isspace c then c = CHR '' '' \<and> \<not> isspace d else True) \<and> ws_collapsed (d # cs))"

text \<open>
  A non-empty whitespace-collapsed string that neither starts nor ends with whitespace:
  the shape of the bank phrases and keywords.
\<close>

definition ws_tight :: "string \<Rightarrow> bool" where
  "ws_tight p = (p \<noteq> [] \<and> \<not> isspace (hd p) \<and> \<not> isspace (last p) \<and> ws_collapsed p)"

text \<open>
  The reading of the specification for the phrases behind the phrase coverage: the
  candidates of the job text for window 3, reranked with cap 3 (the default of
  \<^verbatim>\<open>max_per_token\<close>), cut to 25. It is compared with what \<^verbatim>\<open>phrase_coverage\<close> computes.
\<close>

definition spec_coverage_phrases :: "string \<Rightarrow> string list" where
  "spec_coverage_phrases job_text =
     slice (rerank_phrases_diverse (candidate_phrases job_text 3) rerank_default_max_per_token) 0 25"

section \<open>Properties\<close>

subsection \<open>The keyword lists of run_agent\<close>

lemma set_sorted_set_lower: "set (sorted_set_lower xs) = set xs"
  by (simp add: sorted_set_lower_def)

lemma distinct_sorted_set_lower: "distinct (sorted_set_lower xs)"
  by (simp add: sorted_set_lower_def)

text \<open>
  Claim C1. For every keyword bank \<open>K\<close> and every pair of texts, the overlap and missing
  lists of the pipeline, before the phrase entries are appended, partition the bank
  keywords of the job posting: their union is \<open>extract_keywords job K\<close>, no keyword is in
  both, and neither list repeats a keyword.
\<close>

theorem bank_overlap_missing_partition:
  "set (bank_overlap K resume_text job_text) \<union> set (bank_missing K resume_text job_text)
     = set (extract_keywords job_text K)
   \<and> set (bank_overlap K resume_text job_text) \<inter> set (bank_missing K resume_text job_text) = {}
   \<and> distinct (bank_overlap K resume_text job_text)
   \<and> distinct (bank_missing K resume_text job_text)"
  by (auto simp: bank_overlap_def bank_missing_def Let_def set_sorted_set_lower
        distinct_sorted_set_lower)

subsection \<open>The diversity rerank\<close>

lemma rerank_loop_step:
  "rerank_loop cap (counts, out) (p # ps) =
     rerank_loop cap (counts(anchor p \<mapsto> counts_get counts (anchor p) + 1),
       if counts_get counts (anchor p) + 1 \<le> cap then out @ [p] else out) ps"
  by (simp add: Let_def)

lemma rerank_loop_out:
  "snd (rerank_loop cap (counts, out) ps) = out @ snd (rerank_loop cap (counts, []) ps)"
proof (induction ps arbitrary: counts out)
  case Nil
  show ?case by simp
next
  case (Cons p ps)
  let ?counts' = "counts(anchor p \<mapsto> counts_get counts (anchor p) + 1)"
  have A: "snd (rerank_loop cap (?counts', out @ [p]) ps)
             = (out @ [p]) @ snd (rerank_loop cap (?counts', []) ps)"
    by (rule Cons.IH)
  have B: "snd (rerank_loop cap (?counts', [p]) ps)
             = [p] @ snd (rerank_loop cap (?counts', []) ps)"
    by (rule Cons.IH)
  have C: "snd (rerank_loop cap (?counts', out) ps)
             = out @ snd (rerank_loop cap (?counts', []) ps)"
    by (rule Cons.IH)
  show ?case
  proof (cases "counts_get counts (anchor p) + 1 \<le> cap")
    case True
    then show ?thesis unfolding rerank_loop_step by (simp only: A B if_True append_Nil append_assoc)
  next
    case False
    then show ?thesis unfolding rerank_loop_step by (simp only: C if_False)
  qed
qed

lemma rerank_loop_Cons:
  "snd (rerank_loop cap (counts, []) (p # ps)) =
     (if counts_get counts (anchor p) + 1 \<le> cap then [p] else [])
       @ snd (rerank_loop cap (counts(anchor p \<mapsto> counts_get counts (anchor p) + 1), []) ps)"
proof (cases "counts_get counts (anchor p) + 1 \<le> cap")
  case True
  then show ?thesis unfolding rerank_loop_step
    using rerank_loop_out [of cap "counts(anchor p \<mapsto> counts_get counts (anchor p) + 1)" "[p]" ps]
    by (simp only: if_True append_Nil)
next
  case False
  then show ?thesis unfolding rerank_loop_step by (simp only: if_False append_Nil)
qed

lemma rerank_loop_subseq: "subseq (snd (rerank_loop cap (counts, []) ps)) ps"
proof (induction ps arbitrary: counts)
  case Nil
  show ?case by simp
next
  case (Cons p ps)
  show ?case
    unfolding rerank_loop_Cons using Cons.IH by (auto intro: subseq_Cons')
qed

lemma rerank_loop_bound:
  "int (length (filter (\<lambda>q. anchor q = a) (snd (rerank_loop cap (counts, []) ps))))
     \<le> max 0 (cap - counts_get counts a)"
proof (induction ps arbitrary: counts)
  case Nil
  show ?case by simp
next
  case (Cons p ps)
  let ?c = "counts_get counts (anchor p) + 1"
  let ?counts' = "counts(anchor p \<mapsto> ?c)"
  have get': "counts_get ?counts' a = (if a = anchor p then ?c else counts_get counts a)"
    by (simp add: counts_get_def)
  have IH: "int (length (filter (\<lambda>q. anchor q = a) (snd (rerank_loop cap (?counts', []) ps))))
              \<le> max 0 (cap - counts_get ?counts' a)"
    by (rule Cons.IH)
  show ?case
  proof (cases "anchor p = a")
    case True
    then show ?thesis using IH get' unfolding rerank_loop_Cons by (auto split: if_splits)
  next
    case False
    then show ?thesis using IH get' unfolding rerank_loop_Cons by (auto split: if_splits)
  qed
qed

lemma rerank_subseq: "subseq (rerank_phrases_diverse phrases cap) phrases"
  by (simp add: rerank_phrases_diverse_def rerank_loop_subseq)

lemma rerank_anchor_bound:
  "int (length (filter (\<lambda>q. anchor q = a) (rerank_phrases_diverse phrases cap))) \<le> max 0 cap"
  using rerank_loop_bound [of a cap Map.empty phrases]
  by (simp add: rerank_phrases_diverse_def counts_get_def)

lemma max_by_len_props:
  "\<exists>i < length (t # ts). (t # ts) ! i = max_by_len t ts
      \<and> (\<forall>j < i. length ((t # ts) ! j) < length (max_by_len t ts))
      \<and> (\<forall>w \<in> set (t # ts). length w \<le> length (max_by_len t ts))"
proof (induction ts arbitrary: t rule: rev_induct)
  case Nil
  show ?case by (simp add: max_by_len_def)
next
  case (snoc x xs)
  obtain i where i: "i < length (t # xs)" "(t # xs) ! i = max_by_len t xs"
    "\<forall>j < i. length ((t # xs) ! j) < length (max_by_len t xs)"
    "\<forall>w \<in> set (t # xs). length w \<le> length (max_by_len t xs)"
    using snoc.IH by blast
  have step: "max_by_len t (xs @ [x]) =
      (if length (max_by_len t xs) < length x then x else max_by_len t xs)"
    by (simp add: max_by_len_def)
  have app: "t # xs @ [x] = (t # xs) @ [x]" by simp
  show ?case
  proof (cases "length (max_by_len t xs) < length x")
    case True
    have "(t # xs @ [x]) ! length (t # xs) = x"
      unfolding app by (simp only: nth_append_length)
    moreover have "\<forall>j < length (t # xs). length ((t # xs @ [x]) ! j) < length x"
    proof (intro allI impI)
      fix j assume j: "j < length (t # xs)"
      then have "(t # xs @ [x]) ! j = (t # xs) ! j" unfolding app by (simp only: nth_append if_True)
      moreover have "(t # xs) ! j \<in> set (t # xs)" using j by (rule nth_mem)
      ultimately show "length ((t # xs @ [x]) ! j) < length x" using i(4) True by fastforce
    qed
    moreover have "\<forall>w \<in> set (t # xs @ [x]). length w \<le> length x"
      using i(4) True by fastforce
    ultimately show ?thesis unfolding step using True
      by (intro exI [of _ "length (t # xs)"]) simp
  next
    case False
    have "(t # xs @ [x]) ! i = max_by_len t xs"
      using i(1,2) unfolding app by (simp only: nth_append if_True)
    moreover have "\<forall>j < i. length ((t # xs @ [x]) ! j) < length (max_by_len t xs)"
    proof (intro allI impI)
      fix j assume j: "j < i"
      then have "j < length (t # xs)" using i(1) by simp
      then have "(t # xs @ [x]) ! j = (t # xs) ! j" unfolding app by (simp only: nth_append if_True)
      then show "length ((t # xs @ [x]) ! j) < length (max_by_len t xs)" using i(3) j by simp
    qed
    moreover have "\<forall>w \<in> set (t # xs @ [x]). length w \<le> length (max_by_len t xs)"
      using i(4) False by auto
    ultimately show ?thesis unfolding step using False i(1)
      by (intro exI [of _ i]) simp
  qed
qed

text \<open>
  Claim C6. For every phrase list and every cap, the output of the diversity rerank is a
  subsequence of the input in rank order, and for every phrase of the output the number
  of output phrases with the same anchor is at most the cap. The anchor of a phrase with
  at least one word is its longest word, the first one among equally long words.
\<close>

theorem rerank_diverse_cap:
  "subseq (rerank_phrases_diverse phrases cap) phrases
   \<and> (\<forall>p \<in> set (rerank_phrases_diverse phrases cap).
        int (length (filter (\<lambda>q. anchor q = anchor p) (rerank_phrases_diverse phrases cap))) \<le> cap)
   \<and> (\<forall>p. split p \<noteq> [] \<longrightarrow>
        (\<exists>i < length (split p). split p ! i = anchor p
           \<and> (\<forall>j < i. length (split p ! j) < length (anchor p))
           \<and> (\<forall>w \<in> set (split p). length w \<le> length (anchor p))))"
proof (intro conjI ballI allI impI)
  show "subseq (rerank_phrases_diverse phrases cap) phrases" by (rule rerank_subseq)
next
  fix p assume p: "p \<in> set (rerank_phrases_diverse phrases cap)"
  let ?n = "length (filter (\<lambda>q. anchor q = anchor p) (rerank_phrases_diverse phrases cap))"
  have "p \<in> set (filter (\<lambda>q. anchor q = anchor p) (rerank_phrases_diverse phrases cap))"
    using p by simp
  then have "0 < ?n" by (rule length_pos_if_in_set)
  moreover have "int ?n \<le> max 0 cap" by (rule rerank_anchor_bound)
  ultimately show "int ?n \<le> cap" by linarith
next
  fix p assume "split p \<noteq> []"
  then obtain t ts where s: "split p = t # ts" by (cases "split p") auto
  then have "anchor p = max_by_len t ts" by (simp add: anchor_def)
  then show "\<exists>i < length (split p). split p ! i = anchor p
           \<and> (\<forall>j < i. length (split p ! j) < length (anchor p))
           \<and> (\<forall>w \<in> set (split p). length w \<le> length (anchor p))"
    using max_by_len_props [of t ts] s by simp
qed

theorem rerank_diverse_cap_witness:
  "''a bb'' \<in> set (rerank_phrases_diverse [''a bb'', ''bb c'', ''d bb'', ''x''] 2)
   \<and> int (length (filter (\<lambda>q. anchor q = anchor ''a bb'')
         (rerank_phrases_diverse [''a bb'', ''bb c'', ''d bb'', ''x''] 2))) \<le> 2
   \<and> subseq (rerank_phrases_diverse [''a bb'', ''bb c'', ''d bb'', ''x''] 2)
        [''a bb'', ''bb c'', ''d bb'', ''x'']
   \<and> split ''a bb'' \<noteq> []
   \<and> (\<exists>i < length (split ''a bb''). split ''a bb'' ! i = anchor ''a bb''
         \<and> (\<forall>j < i. length (split ''a bb'' ! j) < length (anchor ''a bb''))
         \<and> (\<forall>w \<in> set (split ''a bb''). length w \<le> length (anchor ''a bb'')))"
proof -
  have h1: "''a bb'' \<in> set (rerank_phrases_diverse [''a bb'', ''bb c'', ''d bb'', ''x''] 2)"
    by code_simp
  have h2: "split ''a bb'' \<noteq> []"
    by code_simp
  show ?thesis
    using h1 h2 rerank_diverse_cap [of "[''a bb'', ''bb c'', ''d bb'', ''x'']" 2]
    by blast
qed

subsection \<open>Short bullets\<close>

text \<open>
  Claim C9. For every bullet that is shorter than 20 characters after stripping,
  \<open>safe_rewrite_bullet\<close> returns \<open>None\<close>: no suggested edit.
\<close>

theorem short_bullet_no_edit:
  "length (strip bullet) < 20 \<Longrightarrow> safe_rewrite_bullet bullet target_keywords = None"
  by (simp add: safe_rewrite_bullet_def)

theorem short_bullet_no_edit_witness:
  "length (strip ''  Fixed printers.  '') < 20
   \<and> safe_rewrite_bullet ''  Fixed printers.  '' [''python'', ''sql''] = None"
proof -
  have h: "length (strip ''  Fixed printers.  '') < 20" by code_simp
  show ?thesis using h short_bullet_no_edit [OF h] by simp
qed

subsection \<open>The normalizer\<close>

lemma of_char_lower_char:
  "(of_char (lower_char c) :: nat) =
     (let n = (of_char c :: nat) in
      if (65 \<le> n \<and> n \<le> 90) \<or> (192 \<le> n \<and> n \<le> 222 \<and> n \<noteq> 215) then n + 32 else n)"
  by (auto simp: lower_char_def Let_def)

lemma isspace_lower_char [simp]: "isspace (lower_char c) = isspace c"
  unfolding isspace_def of_char_lower_char by (auto simp: Let_def)

lemma lower_char_idem [simp]: "lower_char (lower_char c) = lower_char c"
proof -
  have "(of_char (lower_char (lower_char c)) :: nat) = of_char (lower_char c)"
    unfolding of_char_lower_char [of "lower_char c"] unfolding of_char_lower_char [of c]
    by (auto simp: Let_def)
  then show ?thesis by (metis of_char_eq_iff)
qed

lemma lower_char_isspace: "isspace c \<Longrightarrow> lower_char c = c"
  by (auto simp: isspace_def lower_char_def Let_def)

lemma lower_idem: "lower (lower s) = lower s"
  by (simp add: lower_def)

lemma lower_append: "lower (xs @ ys) = lower xs @ lower ys"
  by (simp add: lower_def)

lemma dropWhile_isspace_lower: "dropWhile isspace (lower s) = lower (dropWhile isspace s)"
  by (simp add: lower_def dropWhile_map comp_def)

lemma strip_lower: "strip (lower s) = lower (strip s)"
proof -
  have "rev (lower s) = lower (rev s)" for s by (simp add: lower_def rev_map)
  then show ?thesis by (simp add: strip_def dropWhile_isspace_lower)
qed

lemma rev_dropWhile_decomp: "rev (dropWhile P (rev u)) @ rev (takeWhile P (rev u)) = u"
  by (metis rev_append rev_rev_ident takeWhile_dropWhile_id)

lemma strip_decomp: "\<exists>a b. s = a @ strip s @ b"
proof -
  let ?u = "dropWhile isspace s"
  have u: "?u = strip s @ rev (takeWhile isspace (rev ?u))"
    unfolding strip_def by (rule rev_dropWhile_decomp [symmetric])
  have "s = takeWhile isspace s @ ?u" by simp
  with u have "s = takeWhile isspace s @ strip s @ rev (takeWhile isspace (rev ?u))" by simp
  then show ?thesis by blast
qed

lemma strip_head: "strip s = [] \<or> \<not> isspace (hd (strip s))"
proof (cases "strip s = []")
  case True
  then show ?thesis by simp
next
  case False
  let ?u = "dropWhile isspace s"
  have u: "?u = strip s @ rev (takeWhile isspace (rev ?u))"
    unfolding strip_def by (rule rev_dropWhile_decomp [symmetric])
  then have "hd ?u = hd (strip s)" using False by (metis hd_append2)
  moreover have "?u \<noteq> []" using u False by (metis append_is_Nil_conv)
  then have "\<not> isspace (hd ?u)" by (rule hd_dropWhile)
  ultimately show ?thesis by simp
qed

lemma strip_idem: "strip (strip s) = strip s"
proof -
  have 1: "dropWhile isspace (strip s) = strip s"
    using strip_head [of s] by (simp add: dropWhile_eq_self_iff)
  have 2: "dropWhile isspace (rev (strip s)) = rev (strip s)"
    by (simp add: strip_def)
  show ?thesis unfolding strip_def [of "strip s"] by (simp only: 1 2 rev_rev_ident)
qed

lemma ws_collapsed_Cons:
  "ws_collapsed (c # s) =
     ((if isspace c then c = CHR '' '' \<and> (s = [] \<or> \<not> isspace (hd s)) else True)
      \<and> ws_collapsed s)"
  by (cases s) auto

lemma sub_ws_runs_hd:
  "s \<noteq> [] \<Longrightarrow> \<not> isspace (hd s) \<Longrightarrow> sub_ws_runs s \<noteq> [] \<and> hd (sub_ws_runs s) = hd s"
  by (cases s) auto

lemma ws_collapsed_sub_ws_runs: "ws_collapsed (sub_ws_runs s)"
proof (induction s rule: sub_ws_runs.induct)
  case 1
  show ?case by simp
next
  case (2 c cs)
  show ?case
  proof (cases "isspace c")
    case True
    let ?d = "dropWhile isspace cs"
    have "sub_ws_runs ?d = [] \<or> \<not> isspace (hd (sub_ws_runs ?d))"
    proof (cases "?d = []")
      case True
      then have "sub_ws_runs ?d = []" by (simp only: sub_ws_runs.simps)
      then show ?thesis by blast
    next
      case False
      then have "\<not> isspace (hd ?d)" by (rule hd_dropWhile)
      with False show ?thesis using sub_ws_runs_hd [of ?d] by simp
    qed
    then show ?thesis using True 2 by (simp add: ws_collapsed_Cons)
  next
    case False
    then show ?thesis using 2 by (simp add: ws_collapsed_Cons)
  qed
qed

lemma sub_ws_runs_fixed: "ws_collapsed s \<Longrightarrow> sub_ws_runs s = s"
proof (induction s)
  case Nil
  show ?case by simp
next
  case (Cons c s)
  then have s: "sub_ws_runs s = s" by (simp add: ws_collapsed_Cons)
  show ?case
  proof (cases "isspace c")
    case True
    then have "c = CHR '' ''" "s = [] \<or> \<not> isspace (hd s)"
      using Cons.prems by (simp_all add: ws_collapsed_Cons)
    then have "dropWhile isspace s = s" by (simp add: dropWhile_eq_self_iff)
    then show ?thesis using True s \<open>c = CHR '' ''\<close> by simp
  next
    case False
    then show ?thesis using s by simp
  qed
qed

lemma ws_collapsed_append: "ws_collapsed (xs @ ys) \<Longrightarrow> ws_collapsed xs \<and> ws_collapsed ys"
proof (induction xs)
  case Nil
  then show ?case by simp
next
  case (Cons c xs)
  then have IH: "ws_collapsed xs \<and> ws_collapsed ys" by (simp add: ws_collapsed_Cons)
  have "isspace c \<Longrightarrow> c = CHR '' '' \<and> (xs = [] \<or> \<not> isspace (hd xs))"
    using Cons.prems by (cases xs) (auto simp: ws_collapsed_Cons)
  then show ?case using IH by (auto simp: ws_collapsed_Cons)
qed

lemma ws_collapsed_strip: "ws_collapsed s \<Longrightarrow> ws_collapsed (strip s)"
proof -
  assume s: "ws_collapsed s"
  obtain a b where "s = a @ strip s @ b" using strip_decomp by blast
  then have "ws_collapsed (a @ strip s @ b)" using s by simp
  then show ?thesis using ws_collapsed_append by blast
qed

lemma ws_collapsed_lower: "ws_collapsed s \<Longrightarrow> ws_collapsed (lower s)"
proof (induction s)
  case Nil
  show ?case by (simp add: lower_def)
next
  case (Cons c s)
  then have IH: "ws_collapsed (lower s)" by (simp add: ws_collapsed_Cons)
  have hd: "s \<noteq> [] \<Longrightarrow> hd (lower s) = lower_char (hd s)" by (cases s) (auto simp: lower_def)
  have "lower (c # s) = lower_char c # lower s" by (simp add: lower_def)
  moreover have "isspace c \<Longrightarrow> lower_char c = CHR '' '' \<and> (lower s = [] \<or> \<not> isspace (hd (lower s)))"
    using Cons.prems hd by (cases "s = []") (auto simp: ws_collapsed_Cons lower_char_isspace lower_def)
  ultimately show ?case using IH by (simp add: ws_collapsed_Cons)
qed

lemma ws_collapsed_normalize: "ws_collapsed (normalize x)"
  by (simp add: normalize_def ws_collapsed_lower ws_collapsed_strip ws_collapsed_sub_ws_runs)

lemma strip_normalize: "strip (normalize x) = normalize x"
  by (simp add: normalize_def strip_lower strip_idem)

lemma isspace_space: "isspace CHR '' ''"
  by (simp add: isspace_def)

lemma lower_char_space: "lower_char CHR '' '' = CHR '' ''"
  by (simp add: lower_char_def)

lemma split_Cons_nonspace:
  "\<not> isspace c \<Longrightarrow>
     split (c # cs) = (c # takeWhile (\<lambda>c. \<not> isspace c) cs)
                        # split (dropWhile (\<lambda>c. \<not> isspace c) cs)"
  by (simp add: split_def)

lemma split_dropWhile: "split (dropWhile isspace s) = split s"
  by (induction s) (simp_all add: split_def)

lemma sub_ws_runs_nonspace_prefix:
  "\<forall>x \<in> set w. \<not> isspace x \<Longrightarrow> sub_ws_runs (w @ r) = w @ sub_ws_runs r"
  by (induction w) simp_all

lemma sub_ws_runs_dropWhile:
  "dropWhile isspace (sub_ws_runs s) = sub_ws_runs (dropWhile isspace s)"
proof (cases s)
  case Nil
  then show ?thesis by simp
next
  case (Cons c cs)
  show ?thesis
  proof (cases "isspace c")
    case False
    then show ?thesis using Cons by simp
  next
    case True
    let ?u = "dropWhile isspace cs"
    have "dropWhile isspace (sub_ws_runs ?u) = sub_ws_runs ?u"
    proof (cases "?u = []")
      case True
      then have "sub_ws_runs ?u = []" by (simp only: sub_ws_runs.simps)
      then show ?thesis by (simp only: dropWhile.simps)
    next
      case False
      then have "\<not> isspace (hd ?u)" by (rule hd_dropWhile)
      then have "\<not> isspace (hd (sub_ws_runs ?u))"
        using False sub_ws_runs_hd [of ?u] by simp
      then show ?thesis by (simp only: dropWhile_eq_self_iff) simp
    qed
    then show ?thesis using True Cons by (simp add: isspace_space)
  qed
qed

lemma rstrip_append_nonspace:
  "\<exists>y \<in> set ys. \<not> isspace y \<Longrightarrow>
     rev (dropWhile isspace (rev (xs @ ys))) = xs @ rev (dropWhile isspace (rev ys))"
  by (auto simp: dropWhile_append)

lemma rstrip_append_space:
  "\<forall>y \<in> set ys. isspace y \<Longrightarrow>
     rev (dropWhile isspace (rev (xs @ ys))) = rev (dropWhile isspace (rev xs))"
  by (simp add: dropWhile_append)

lemma rstrip_nonspace:
  "w \<noteq> [] \<Longrightarrow> \<not> isspace (last w) \<Longrightarrow> rev (dropWhile isspace (rev w)) = w"
proof -
  assume w: "w \<noteq> []" "\<not> isspace (last w)"
  then have "rev w \<noteq> []" "\<not> isspace (hd (rev w))" by (simp_all add: hd_rev)
  then have "dropWhile isspace (rev w) = rev w" by (simp add: dropWhile_eq_self_iff)
  then show ?thesis by simp
qed

lemma rstrip_sub_ws_runs:
  "s = [] \<or> \<not> isspace (hd s) \<Longrightarrow>
     rev (dropWhile isspace (rev (sub_ws_runs s))) = join (split s)"
proof (induction "length s" arbitrary: s rule: less_induct)
  case less
  show ?case
  proof (cases s)
    case Nil
    then show ?thesis by (simp add: split_def)
  next
    case (Cons c cs)
    then have c: "\<not> isspace c" using less.prems by simp
    let ?w = "c # takeWhile (\<lambda>c. \<not> isspace c) cs"
    let ?rest = "dropWhile (\<lambda>c. \<not> isspace c) cs"
    let ?t = "dropWhile isspace ?rest"
    have s: "s = ?w @ ?rest" using Cons by simp
    have w_ns: "\<forall>x \<in> set ?w. \<not> isspace x"
      using c by (auto dest: set_takeWhileD)
    have w_last: "?w \<noteq> []" "\<not> isspace (last ?w)"
      using w_ns last_in_set [of ?w] by (simp, blast)
    have sub: "sub_ws_runs s = ?w @ sub_ws_runs ?rest"
      using sub_ws_runs_nonspace_prefix [OF w_ns, of ?rest] s by simp
    have spl: "split s = ?w # split ?t"
      unfolding Cons split_dropWhile using c by (rule split_Cons_nonspace)
    have len: "length ?t < length s"
    proof -
      have "length ?t \<le> length ?rest" by (rule length_dropWhile_le)
      also have "\<dots> \<le> length cs" by (rule length_dropWhile_le)
      finally show ?thesis using Cons by simp
    qed
    have hd_t: "?t = [] \<or> \<not> isspace (hd ?t)"
      using hd_dropWhile [of isspace ?rest] by blast
    have IH: "rev (dropWhile isspace (rev (sub_ws_runs ?t))) = join (split ?t)"
      using less.hyps [OF len hd_t] .
    show ?thesis
    proof (cases "?rest = []")
      case True
      have r0: "sub_ws_runs ?rest = []" by (simp only: True sub_ws_runs.simps)
      have t0: "?t = []" by (simp only: True dropWhile.simps)
      have s0: "split ?t = []" by (simp only: t0 split_def findall_runs.simps)
      have "sub_ws_runs s = ?w" using sub by (simp only: r0 append_Nil2)
      moreover have "split s = [?w]" using spl by (simp only: s0)
      ultimately show ?thesis using rstrip_nonspace [OF w_last] by (simp only: join.simps)
    next
      case False
      then obtain d r where dr: "?rest = d # r" by (cases ?rest) auto
      have "\<not> (\<lambda>c. \<not> isspace c) (hd ?rest)" using False by (rule hd_dropWhile)
      then have d: "isspace d" using dr by simp
      have t: "?t = dropWhile isspace r" using dr d by simp
      have sub': "sub_ws_runs s = (?w @ '' '') @ sub_ws_runs ?t"
        using sub dr d t by simp
      show ?thesis
      proof (cases "?t = []")
        case True
        have r0: "sub_ws_runs ?t = []" by (simp only: True sub_ws_runs.simps)
        have s0: "split ?t = []" by (simp only: True split_def findall_runs.simps)
        have "sub_ws_runs s = ?w @ '' ''" using sub' by (simp only: r0 append_Nil2)
        moreover have "\<forall>y \<in> set '' ''. isspace y" by (simp add: isspace_space)
        ultimately have "rev (dropWhile isspace (rev (sub_ws_runs s)))
                           = rev (dropWhile isspace (rev ?w))"
          using rstrip_append_space [of "'' ''" ?w] by (simp only:)
        moreover have "split s = [?w]" using spl by (simp only: s0)
        ultimately show ?thesis using rstrip_nonspace [OF w_last] by (simp only: join.simps)
      next
        case False
        then have h: "\<not> isspace (hd ?t)" using hd_t by blast
        have ne: "sub_ws_runs ?t \<noteq> []" "hd (sub_ws_runs ?t) = hd ?t"
          using sub_ws_runs_hd [OF False h] by simp_all
        have "hd (sub_ws_runs ?t) \<in> set (sub_ws_runs ?t)" using ne(1) by (rule hd_in_set)
        moreover have "\<not> isspace (hd (sub_ws_runs ?t))" using h ne(2) by simp
        ultimately have ex: "\<exists>y \<in> set (sub_ws_runs ?t). \<not> isspace y" by (rule bexI [rotated])
        have "rev (dropWhile isspace (rev (sub_ws_runs s)))
                = (?w @ '' '') @ rev (dropWhile isspace (rev (sub_ws_runs ?t)))"
          unfolding sub' using ex by (rule rstrip_append_nonspace)
        also have "\<dots> = ?w @ '' '' @ join (split ?t)" using IH by simp
        finally have l: "rev (dropWhile isspace (rev (sub_ws_runs s)))
                           = ?w @ '' '' @ join (split ?t)" .
        obtain e es where "?t = e # es" using False by (cases ?t) auto
        then have "split ?t \<noteq> []" using h by (simp add: split_def)
        then obtain v vs where "split ?t = v # vs" by (cases "split ?t") auto
        then have "join (split s) = ?w @ '' '' @ join (split ?t)" using spl by simp
        then show ?thesis using l by simp
      qed
    qed
  qed
qed

lemma strip_sub_ws_runs: "strip (sub_ws_runs s) = join (split s)"
proof -
  let ?u = "dropWhile isspace s"
  have "?u = [] \<or> \<not> isspace (hd ?u)" using hd_dropWhile [of isspace s] by blast
  then have "rev (dropWhile isspace (rev (sub_ws_runs ?u))) = join (split ?u)"
    by (rule rstrip_sub_ws_runs)
  then show ?thesis
    by (simp add: strip_def sub_ws_runs_dropWhile split_dropWhile)
qed

lemma lower_join: "lower (join ws) = join (map lower ws)"
  by (induction ws rule: join.induct) (simp_all add: lower_def lower_char_space)

lemma normalize_words: "normalize (Some s) = join (map lower (split s))"
  by (simp add: normalize_def strip_sub_ws_runs lower_join)


lemma concat_findall_runs: "concat (findall_runs P s) = filter P s"
proof (induction P s rule: findall_runs.induct)
  case (1 P)
  show ?case by simp
next
  case (2 P c cs)
  show ?case
  proof (cases "P c")
    case True
    have "filter P cs = filter P (takeWhile P cs @ dropWhile P cs)" by simp
    also have "\<dots> = filter P (takeWhile P cs) @ filter P (dropWhile P cs)"
      by (rule filter_append)
    also have "filter P (takeWhile P cs) = takeWhile P cs"
      by (simp add: filter_id_conv) (meson set_takeWhileD)
    finally have "filter P cs = takeWhile P cs @ filter P (dropWhile P cs)" .
    then show ?thesis using True 2 by simp
  next
    case False
    then show ?thesis using 2 by simp
  qed
qed

lemma findall_runs_words: "w \<in> set (findall_runs P s) \<Longrightarrow> \<forall>c \<in> set w. P c"
proof (induction P s rule: findall_runs.induct)
  case (1 P)
  then show ?case by simp
next
  case (2 P c cs)
  then show ?case by (cases "P c") (auto dest: set_takeWhileD)
qed

lemma filter_nonspace_join:
  "filter (\<lambda>c. \<not> isspace c) (join ws) = concat (map (filter (\<lambda>c. \<not> isspace c)) ws)"
  by (induction ws rule: join.induct) (simp_all add: isspace_space)

lemma filter_nonspace_lower:
  "filter (\<lambda>c. \<not> isspace c) (lower s) = lower (filter (\<lambda>c. \<not> isspace c) s)"
  by (simp add: lower_def filter_map comp_def)

lemma normalize_nonspace:
  "filter (\<lambda>c. \<not> isspace c) (normalize (Some s)) = lower (filter (\<lambda>c. \<not> isspace c) s)"
proof -
  have "filter (\<lambda>c. \<not> isspace c) (join (split s)) = concat (map (filter (\<lambda>c. \<not> isspace c)) (split s))"
    by (rule filter_nonspace_join)
  also have "map (filter (\<lambda>c. \<not> isspace c)) (split s) = split s"
  proof (rule map_idI)
    fix w assume "w \<in> set (split s)"
    then have "\<forall>c \<in> set w. \<not> isspace c" unfolding split_def by (rule findall_runs_words)
    then show "filter (\<lambda>c. \<not> isspace c) w = w" by (simp add: filter_id_conv)
  qed
  also have "concat (split s) = filter (\<lambda>c. \<not> isspace c) s"
    unfolding split_def by (rule concat_findall_runs)
  finally have "filter (\<lambda>c. \<not> isspace c) (join (split s)) = filter (\<lambda>c. \<not> isspace c) s" .
  then show ?thesis
    by (simp add: normalize_def strip_sub_ws_runs filter_nonspace_lower)
qed

text \<open>
  Claim C7. \<open>normalize\<close> returns a string for every input, \<open>None\<close> and the empty string
  included (both give the empty string). The result is the input lower-cased, trimmed and
  whitespace-collapsed: it is the whitespace-separated words of the input, each
  lower-cased, joined by single spaces; its non-whitespace characters are those of the
  input, in order, lower-cased; and it is a fixed point of \<open>lower\<close>, of \<open>strip\<close> and of the
  whitespace substitution. \<open>normalize\<close> is idempotent.
\<close>

theorem normalize_total_idempotent:
  "normalize x = join (map lower (split (case x of None \<Rightarrow> [] | Some s \<Rightarrow> s)))
   \<and> filter (\<lambda>c. \<not> isspace c) (normalize x)
       = lower (filter (\<lambda>c. \<not> isspace c) (case x of None \<Rightarrow> [] | Some s \<Rightarrow> s))
   \<and> normalize None = [] \<and> normalize (Some []) = []
   \<and> normalize (Some (''  Job'' @ [CHR 0x09, CHR 0x0A] @ ''POSTING  '')) = ''job posting''
   \<and> lower (normalize x) = normalize x
   \<and> strip (normalize x) = normalize x
   \<and> sub_ws_runs (normalize x) = normalize x
   \<and> normalize (Some (normalize x)) = normalize x"
proof -
  have e: "normalize None = []" "normalize (Some []) = []"
    by (simp_all add: normalize_def strip_def lower_def)
  have j: "normalize x = join (map lower (split (case x of None \<Rightarrow> [] | Some s \<Rightarrow> s)))"
    using e(1) by (cases x) (simp_all add: normalize_words split_def)
  have f: "filter (\<lambda>c. \<not> isspace c) (normalize x)
       = lower (filter (\<lambda>c. \<not> isspace c) (case x of None \<Rightarrow> [] | Some s \<Rightarrow> s))"
    using e(1) by (cases x) (simp_all add: normalize_nonspace lower_def)
  have c: "normalize (Some (''  Job'' @ [CHR 0x09, CHR 0x0A] @ ''POSTING  '')) = ''job posting''"
    by code_simp
  have l: "lower (normalize x) = normalize x" by (simp add: normalize_def lower_idem)
  have s: "strip (normalize x) = normalize x" by (rule strip_normalize)
  have w: "sub_ws_runs (normalize x) = normalize x"
    by (rule sub_ws_runs_fixed) (rule ws_collapsed_normalize)
  have i: "normalize (Some (normalize x)) = normalize x"
    unfolding normalize_def [of "Some (normalize x)"] by (simp add: w s l)
  show ?thesis using j f e c l s w i by (intro conjI)
qed

subsection \<open>Substrings survive normalization\<close>

lemma dropWhile_isspace_mid:
  "p \<noteq> [] \<Longrightarrow> \<not> isspace (hd p) \<Longrightarrow>
     dropWhile isspace (a @ p @ b) = dropWhile isspace a @ p @ b"
proof (induction a)
  case Nil
  then show ?case by (cases p) auto
next
  case (Cons x a)
  then show ?case by simp
qed

lemma sub_ws_runs_tight_prefix:
  "ws_collapsed p \<Longrightarrow> p \<noteq> [] \<Longrightarrow> \<not> isspace (last p) \<Longrightarrow>
     sub_ws_runs (p @ b) = p @ sub_ws_runs b"
proof (induction p)
  case Nil
  then show ?case by simp
next
  case (Cons c p)
  show ?case
  proof (cases "p = []")
    case True
    then show ?thesis using Cons.prems by simp
  next
    case False
    have wp: "ws_collapsed p" using Cons.prems(1) by (simp add: ws_collapsed_Cons)
    have lp: "\<not> isspace (last p)" using Cons.prems(3) False by simp
    have IH: "sub_ws_runs (p @ b) = p @ sub_ws_runs b" using Cons.IH wp False lp by simp
    show ?thesis
    proof (cases "isspace c")
      case True
      then have c: "c = CHR '' ''" and h: "\<not> isspace (hd p)"
        using Cons.prems(1) False by (simp_all add: ws_collapsed_Cons)
      have "dropWhile isspace (p @ b) = p @ b"
        using h False by (cases p) auto
      then show ?thesis using True c IH by simp
    next
      case False
      then show ?thesis using IH by simp
    qed
  qed
qed

lemma sub_ws_runs_mid:
  "ws_tight p \<Longrightarrow> \<exists>a'. sub_ws_runs (a @ p @ b) = a' @ p @ sub_ws_runs b"
proof (induction a rule: sub_ws_runs.induct)
  case 1
  then have "sub_ws_runs (p @ b) = p @ sub_ws_runs b"
    by (simp add: ws_tight_def sub_ws_runs_tight_prefix)
  then show ?case by simp
next
  case (2 c cs)
  show ?case
  proof (cases "isspace c")
    case True
    have d: "dropWhile isspace (cs @ p @ b) = dropWhile isspace cs @ p @ b"
      using 2(3) by (simp add: ws_tight_def dropWhile_isspace_mid)
    obtain a' where "sub_ws_runs (dropWhile isspace cs @ p @ b) = a' @ p @ sub_ws_runs b"
      using 2(1) [OF True 2(3)] by blast
    then have "sub_ws_runs ((c # cs) @ p @ b) = (CHR '' '' # a') @ p @ sub_ws_runs b"
      using True d by simp
    then show ?thesis by blast
  next
    case False
    obtain a' where "sub_ws_runs (cs @ p @ b) = a' @ p @ sub_ws_runs b"
      using 2(2) [OF False 2(3)] by blast
    then have "sub_ws_runs ((c # cs) @ p @ b) = (c # a') @ p @ sub_ws_runs b"
      using False by simp
    then show ?thesis by blast
  qed
qed

lemma strip_mid:
  assumes "p \<noteq> []" "\<not> isspace (hd p)" "\<not> isspace (last p)"
  shows "strip (a @ p @ b) = dropWhile isspace a @ p @ rev (dropWhile isspace (rev b))"
proof -
  have 1: "dropWhile isspace (a @ p @ b) = dropWhile isspace a @ p @ b"
    using assms by (simp add: dropWhile_isspace_mid)
  have rp: "rev p \<noteq> []" "\<not> isspace (hd (rev p))"
    using assms by (simp_all add: hd_rev)
  have 2: "dropWhile isspace (rev b @ rev p @ rev (dropWhile isspace a))
             = dropWhile isspace (rev b) @ rev p @ rev (dropWhile isspace a)"
    using rp by (rule dropWhile_isspace_mid)
  show ?thesis unfolding strip_def 1 using 2 by simp
qed

lemma sublist_normalize:
  assumes "ws_tight p" "sublist p t"
  shows "sublist (lower p) (normalize (Some t))"
proof -
  obtain a b where t: "t = a @ p @ b" using assms(2) by (auto simp: sublist_def)
  obtain a' where 1: "sub_ws_runs t = a' @ p @ sub_ws_runs b"
    unfolding t using sub_ws_runs_mid [OF assms(1)] by blast
  have 2: "strip (sub_ws_runs t)
             = dropWhile isspace a' @ p @ rev (dropWhile isspace (rev (sub_ws_runs b)))"
    unfolding 1 using assms(1) by (intro strip_mid) (simp_all add: ws_tight_def)
  have "normalize (Some t)
          = lower (dropWhile isspace a') @ lower p
              @ lower (rev (dropWhile isspace (rev (sub_ws_runs b))))"
    by (simp add: normalize_def 2 lower_append)
  then show ?thesis by (simp add: sublist_def) blast
qed

lemma no_space_ws_tight:
  assumes "p \<noteq> []" "\<forall>c \<in> set p. \<not> isspace c"
  shows "ws_tight p"
proof -
  have "ws_collapsed q" if "\<forall>c \<in> set q. \<not> isspace c" for q
    using that by (induction q) (auto simp: ws_collapsed_Cons)
  then show ?thesis using assms by (simp add: ws_tight_def)
qed


lemma select_add_kw_Some:
  "select_add_kw b kws = Some kw \<Longrightarrow>
     \<not> sublist (lower kw) (normalize (Some b)) \<and> lower kw \<in> set HIGH_SIGNAL \<and> kw \<in> set kws"
  by (induction kws) (auto split: if_splits)

lemma lower_nonempty: "lower kw \<in> set HIGH_SIGNAL \<Longrightarrow> kw \<noteq> []"
  by (auto simp: HIGH_SIGNAL_def lower_def)

lemma TOOL_NAMES_no_space:
  "w \<in> set TOOL_NAMES \<Longrightarrow> w \<noteq> [] \<and> (\<forall>c \<in> set w. \<not> isspace c)"
  by (auto simp: TOOL_NAMES_def isspace_def)

lemma lower_no_space:
  assumes "\<forall>c \<in> set (lower r). \<not> isspace c"
  shows "\<forall>c \<in> set r. \<not> isspace c"
proof
  fix c assume "c \<in> set r"
  then have "lower_char c \<in> set (lower r)" by (simp add: lower_def)
  then have "\<not> isspace (lower_char c)" using assms by blast
  then show "\<not> isspace c" by simp
qed

lemma upper_sql: "map upper_char ''sql'' = ''SQL''"
  by code_simp

lemma lower_SQL: "lower ''SQL'' = lower ''sql''"
  by code_simp

lemma tool_mention_eq:
  "tool_mention kw =
     '' (Tools used where applicable: '' @ (if kw = ''sql'' then ''SQL'' else kw) @ ''.)''"
  using upper_sql by (simp add: tool_mention_def)

lemma tool_mention_not_in_bullet:
  assumes sel: "select_add_kw b kws = Some kw" and tool: "lower kw \<in> set TOOL_NAMES"
  shows "pre @ tool_mention kw \<noteq> b"
proof
  assume eq: "pre @ tool_mention kw = b"
  define r where "r = (if kw = ''sql'' then ''SQL'' else kw)"
  have lr: "lower r = lower kw"
    using lower_SQL by (simp add: r_def)
  have "b = (pre @ '' (Tools used where applicable: '') @ r @ ''.)''"
    using eq by (simp add: tool_mention_eq r_def)
  then have sub: "sublist r b" unfolding sublist_def by blast
  have "lower r \<noteq> []" "\<forall>c \<in> set (lower r). \<not> isspace c"
    using TOOL_NAMES_no_space [OF tool] lr by simp_all
  then have "r \<noteq> []" "\<forall>c \<in> set r. \<not> isspace c"
    using lower_no_space by (auto simp: lower_def)
  then have "ws_tight r" by (rule no_space_ws_tight)
  then have "sublist (lower r) (normalize (Some b))" using sub by (rule sublist_normalize)
  then show False using select_add_kw_Some [OF sel] lr by simp
qed

subsection \<open>Keyword injection of the bullet rewrite\<close>



text \<open>
  Claim C8. Whenever the bullet rewrite, on a bullet of at least 20 characters, selects a
  keyword whose lower-case form is one of \<open>python\<close>, \<open>sql\<close>, \<open>api\<close>, \<open>git\<close>, an edit is
  emitted, it has \<open>needs_confirmation\<close> set, and its suggestion is the tightened bullet
  followed by the parenthetical tool mention, with \<open>sql\<close> rendered \<open>SQL\<close>. An emitted
  edit without \<open>needs_confirmation\<close> has no tool mention appended: either no keyword was
  selected and the suggestion is the tightened bullet, or the selected keyword is not a
  tool name and the focus mention was appended.
\<close>

theorem tool_mention_needs_confirmation:
  "(20 \<le> length (strip bullet) \<and> select_add_kw (strip bullet) kws = Some kw
      \<and> lower kw \<in> set TOOL_NAMES \<longrightarrow>
      (\<exists>e. safe_rewrite_bullet bullet kws = Some e \<and> needs_confirmation e
         \<and> suggestion e = tighten (strip bullet)
              @ '' (Tools used where applicable: '' @ (if kw = ''sql'' then ''SQL'' else kw) @ ''.)''))
   \<and> (safe_rewrite_bullet bullet kws = Some e \<and> \<not> needs_confirmation e \<longrightarrow>
        (select_add_kw (strip bullet) kws = None \<and> suggestion e = tighten (strip bullet))
        \<or> (\<exists>k. select_add_kw (strip bullet) kws = Some k \<and> lower k \<notin> set TOOL_NAMES
              \<and> suggestion e = tighten (strip bullet) @ '' (Focus: '' @ k @ ''.)''))"
proof (intro conjI impI)
  assume a: "20 \<le> length (strip bullet) \<and> select_add_kw (strip bullet) kws = Some kw
      \<and> lower kw \<in> set TOOL_NAMES"
  then have len: "\<not> length (strip bullet) < 20" "strip bullet \<noteq> []" by auto
  have sel: "select_add_kw (strip bullet) kws = Some kw" and tool: "lower kw \<in> set TOOL_NAMES"
    using a by simp_all
  have kw: "kw \<noteq> []" using TOOL_NAMES_no_space [OF tool] by (auto simp: lower_def)
  have ne: "tighten (strip bullet) @ tool_mention kw \<noteq> strip bullet"
    using sel tool by (rule tool_mention_not_in_bullet)
  have "safe_rewrite_bullet bullet kws =
          Some \<lparr> target = ''bullet'', original = strip bullet,
                 suggestion = tighten (strip bullet) @ tool_mention kw,
                 rationale = ''Tightened wording for clarity.''
                   @ '' Added a tool mention to align with the posting--confirm you actually used ''
                   @ kw @ ''.'',
                 needs_confirmation = True \<rparr>"
    using len sel tool kw ne by (simp add: safe_rewrite_bullet_def Let_def)
  then show "\<exists>e. safe_rewrite_bullet bullet kws = Some e \<and> needs_confirmation e
         \<and> suggestion e = tighten (strip bullet)
              @ '' (Tools used where applicable: '' @ (if kw = ''sql'' then ''SQL'' else kw) @ ''.)''"
    by (simp add: tool_mention_eq)
next
  assume a: "safe_rewrite_bullet bullet kws = Some e \<and> \<not> needs_confirmation e"
  show "(select_add_kw (strip bullet) kws = None \<and> suggestion e = tighten (strip bullet))
        \<or> (\<exists>k. select_add_kw (strip bullet) kws = Some k \<and> lower k \<notin> set TOOL_NAMES
              \<and> suggestion e = tighten (strip bullet) @ '' (Focus: '' @ k @ ''.)'')"
  proof (cases "select_add_kw (strip bullet) kws")
    case None
    then show ?thesis using a
      by (auto simp: safe_rewrite_bullet_def Let_def split: if_splits)
  next
    case (Some k)
    then have "k \<noteq> []" using select_add_kw_Some lower_nonempty by blast
    then show ?thesis using a Some
      by (auto simp: safe_rewrite_bullet_def Let_def focus_mention_def split: if_splits)
  qed
qed


theorem tool_mention_needs_confirmation_witness:
  "20 \<le> length (strip ''I just handled tickets very quickly for the helpdesk team'')
   \<and> select_add_kw (strip ''I just handled tickets very quickly for the helpdesk team'')
         [''sql''] = Some ''sql''
   \<and> lower ''sql'' \<in> set TOOL_NAMES
   \<and> (\<exists>e. safe_rewrite_bullet ''I just handled tickets very quickly for the helpdesk team''
              [''sql''] = Some e
          \<and> needs_confirmation e
          \<and> suggestion e
               = ''I handled tickets quickly for the helpdesk team (Tools used where applicable: SQL.)'')
   \<and> safe_rewrite_bullet ''I just handled tickets very quickly for the helpdesk team''
         [''automation'']
       = Some \<lparr> target = ''bullet'',
                original = ''I just handled tickets very quickly for the helpdesk team'',
                suggestion = ''I handled tickets quickly for the helpdesk team (Focus: automation.)'',
                rationale = ''Tightened wording for clarity. Added focus keyword ''
                  @ [CHR 0x27] @ ''automation'' @ [CHR 0x27] @ '' to better match the posting.'',
                needs_confirmation = False \<rparr>
   \<and> select_add_kw (strip ''I just handled tickets very quickly for the helpdesk team'')
         [''automation''] = Some ''automation''
   \<and> lower ''automation'' \<notin> set TOOL_NAMES"
proof -
  let ?B = "''I just handled tickets very quickly for the helpdesk team''"
  let ?E = "\<lparr> target = ''bullet'', original = ?B,
              suggestion = ''I handled tickets quickly for the helpdesk team (Focus: automation.)'',
              rationale = ''Tightened wording for clarity. Added focus keyword ''
                @ [CHR 0x27] @ ''automation'' @ [CHR 0x27] @ '' to better match the posting.'',
              needs_confirmation = False \<rparr>"
  have h1: "20 \<le> length (strip ?B)" by code_simp
  have h2: "select_add_kw (strip ?B) [''sql''] = Some ''sql''" by code_simp
  have h3: "lower ''sql'' \<in> set TOOL_NAMES" by code_simp
  have t: "tighten (strip ?B) = ''I handled tickets quickly for the helpdesk team''" by code_simp
  have h4: "safe_rewrite_bullet ?B [''automation''] = Some ?E" by code_simp
  have h5: "\<not> needs_confirmation ?E" by simp
  have h6: "select_add_kw (strip ?B) [''automation''] = Some ''automation''" by code_simp
  have h7: "lower ''automation'' \<notin> set TOOL_NAMES" by code_simp
  have a: "\<exists>e. safe_rewrite_bullet ?B [''sql''] = Some e \<and> needs_confirmation e
          \<and> suggestion e
               = ''I handled tickets quickly for the helpdesk team (Tools used where applicable: SQL.)''"
    using h1 h2 h3 t tool_mention_needs_confirmation [of ?B "[''sql'']" "''sql''" ?E]
    by simp
  have b: "(select_add_kw (strip ?B) [''automation''] = None \<and> suggestion ?E = tighten (strip ?B))
        \<or> (\<exists>k. select_add_kw (strip ?B) [''automation''] = Some k \<and> lower k \<notin> set TOOL_NAMES
              \<and> suggestion ?E = tighten (strip ?B) @ '' (Focus: '' @ k @ ''.)'')"
    using h4 h5 tool_mention_needs_confirmation [of ?B "[''automation'']" "''sql''" ?E]
    by blast
  show ?thesis using h1 h2 h3 a h4 h6 h7 by blast
qed

subsection \<open>Red flags\<close>

lemma red_flags_run_agent: "red_flags (run_agent resume_text job_text) = find_red_flags job_text"
  by (simp add: run_agent_def Let_def split_beta)

lemma ws_tight_wire_transfer: "ws_tight ''wire transfer''"
  by code_simp

lemma ws_tight_gift_card: "ws_tight ''gift card''"
  by code_simp

lemma lower_wire_transfer: "lower ''wire transfer'' = ''wire transfer''"
  by code_simp

lemma lower_gift_card: "lower ''gift card'' = ''gift card''"
  by code_simp

text \<open>
  Claim C5, as amended. For every job text that contains ``wire transfer'' and
  ``gift card'' and whose normalized form contains no other red-flag phrase, and for every
  resume, the red flags are \<open>[gift card, wire transfer]\<close>: the matches in bank order, in
  which ``gift card'' comes before ``wire transfer''.
\<close>

theorem red_flags_bank_order:
  assumes "sublist ''wire transfer'' job_text"
    and "sublist ''gift card'' job_text"
    and "\<forall>p \<in> set RED_FLAG_PHRASES. p \<noteq> ''wire transfer'' \<and> p \<noteq> ''gift card''
           \<longrightarrow> \<not> sublist p (normalize (Some job_text))"
  shows "red_flags (run_agent resume_text job_text) = [''gift card'', ''wire transfer'']"
proof -
  have w: "sublist ''wire transfer'' (normalize (Some job_text))"
    using sublist_normalize [OF ws_tight_wire_transfer assms(1)] lower_wire_transfer by simp
  have g: "sublist ''gift card'' (normalize (Some job_text))"
    using sublist_normalize [OF ws_tight_gift_card assms(2)] lower_gift_card by simp
  have n: "\<not> sublist ''unpaid'' (normalize (Some job_text))"
    "\<not> sublist ''pay to apply'' (normalize (Some job_text))"
    "\<not> sublist ''telegram'' (normalize (Some job_text))"
    "\<not> sublist ''whatsapp'' (normalize (Some job_text))"
    "\<not> sublist ''kindly'' (normalize (Some job_text))"
    "\<not> sublist ''check deposit'' (normalize (Some job_text))"
    "\<not> sublist ''remote equipment fee'' (normalize (Some job_text))"
    using assms(3) by (simp_all add: RED_FLAG_PHRASES_def)
  have "find_red_flags job_text = [''gift card'', ''wire transfer'']"
    unfolding find_red_flags_def RED_FLAG_PHRASES_def Let_def
    by (simp only: filter.simps w g n if_True if_False)
  then show ?thesis by (simp only: red_flags_run_agent)
qed

theorem red_flags_bank_order_witness:
  "sublist ''wire transfer'' ''Send a wire transfer or a gift card''
   \<and> sublist ''gift card'' ''Send a wire transfer or a gift card''
   \<and> filter (\<lambda>p. sublist p (normalize (Some ''Send a wire transfer or a gift card'')))
         RED_FLAG_PHRASES = [''gift card'', ''wire transfer'']
   \<and> red_flags (run_agent ''Used SQL daily'' ''Send a wire transfer or a gift card'')
       = [''gift card'', ''wire transfer'']"
proof -
  have h1: "sublist ''wire transfer'' ''Send a wire transfer or a gift card''" by code_simp
  have h2: "sublist ''gift card'' ''Send a wire transfer or a gift card''" by code_simp
  have h3: "\<forall>p \<in> set RED_FLAG_PHRASES. p \<noteq> ''wire transfer'' \<and> p \<noteq> ''gift card''
           \<longrightarrow> \<not> sublist p (normalize (Some ''Send a wire transfer or a gift card''))"
    by code_simp
  have h4: "filter (\<lambda>p. sublist p (normalize (Some ''Send a wire transfer or a gift card'')))
              RED_FLAG_PHRASES = [''gift card'', ''wire transfer'']"
    by code_simp
  show ?thesis
    using h1 h2 h4 red_flags_bank_order [OF h1 h2 h3, of "''Used SQL daily''"] by blast
qed

text \<open>
  The claim as stated fails: this job text contains both phrases and no other red-flag
  phrase, before and after normalization, and the result is not
  \<open>[wire transfer, gift card]\<close>.
\<close>

theorem red_flags_order_counterexample:
  "sublist ''wire transfer'' ''Send a wire transfer or a gift card''
   \<and> sublist ''gift card'' ''Send a wire transfer or a gift card''
   \<and> filter (\<lambda>p. sublist p ''Send a wire transfer or a gift card'') RED_FLAG_PHRASES
       = [''gift card'', ''wire transfer'']
   \<and> find_red_flags ''Send a wire transfer or a gift card'' = [''gift card'', ''wire transfer'']
   \<and> find_red_flags ''Send a wire transfer or a gift card'' \<noteq> [''wire transfer'', ''gift card'']"
  by code_simp

subsection \<open>The phrase extractor\<close>

lemma slice_0: "slice xs 0 k = take (slice_index k (length xs)) xs"
  by (simp add: slice_def slice_index_def)

lemma slice_window:
  assumes "0 \<le> i" "0 < n" "i + n \<le> int (length xs)"
  shows "slice xs i (i + n) = take (nat n) (drop (nat i) xs)"
proof -
  have a: "slice_index i (length xs) = nat i"
    using assms by (simp add: slice_index_def)
  have b: "slice_index (i + n) (length xs) = nat i + nat n"
    using assms by (simp add: slice_index_def nat_add_distrib)
  show ?thesis by (simp add: slice_def a b)
qed

lemma ngrams_short: "int (length words) < n \<Longrightarrow> ngrams words n = []"
  by (simp add: ngrams_def)

lemma ngrams_eq:
  assumes "0 < n"
  shows "ngrams words n
           = map (\<lambda>i. join (take (nat n) (drop i words))) [0 ..< Suc (length words) - nat n]"
proof (rule nth_equalityI)
  show len: "length (ngrams words n)
          = length (map (\<lambda>i. join (take (nat n) (drop i words))) [0 ..< Suc (length words) - nat n])"
    using assms by (simp add: ngrams_def)
  fix k assume "k < length (ngrams words n)"
  then have k: "k < Suc (length words) - nat n" using len by simp
  then have k': "int k \<le> int (length words) - n" using assms by linarith
  have u: "[0 .. int (length words) - n] ! k = 0 + int k"
    using k' by (intro nth_upto) simp
  have "k < length [0 .. int (length words) - n]" using k' by simp
  then have "ngrams words n ! k = join (slice words (int k) (int k + n))"
    unfolding ngrams_def by (simp only: nth_map u add_0)
  also have "slice words (int k) (int k + n) = take (nat n) (drop (nat (int k)) words)"
    using assms k' by (intro slice_window) simp_all
  finally show "ngrams words n ! k
      = map (\<lambda>i. join (take (nat n) (drop i words))) [0 ..< Suc (length words) - nat n] ! k"
    using k by simp
qed

lemma rerank_Nil: "rerank_phrases_diverse [] cap = []"
  by (simp add: rerank_phrases_diverse_def)

lemma candidate_phrases_short:
  "int (length (tokenize_words text)) < n \<Longrightarrow> candidate_phrases text n = []"
  by (simp add: candidate_phrases_def Let_def ngrams_short count_freq_def)

lemma extract_phrases_short:
  "int (length (tokenize_words text)) < n \<Longrightarrow> extract_phrases text n top_k = []"
  by (simp add: extract_phrases_def Let_def candidate_phrases_short rerank_Nil slice_0)

text \<open>
  Claim C4, as amended. The phrase extractor builds the contiguous n-grams of the token
  list with a fixed window \<open>n\<close>: one phrase for each start position, the \<open>n\<close> tokens from
  there joined by spaces. The default of \<open>n\<close> is 2 (the phrase coverage passes 3). For every
  \<open>n\<close>, a text with fewer than \<open>n\<close> tokens yields no phrases.
\<close>

theorem ngram_window_default:
  "extract_phrases_default_n = 2
   \<and> (int (length (tokenize_words text)) < n \<longrightarrow> extract_phrases text n top_k = [])
   \<and> (0 < n \<longrightarrow> ngrams words n
         = map (\<lambda>i. join (take (nat n) (drop i words))) [0 ..< Suc (length words) - nat n])"
  using extract_phrases_short [of "text" n top_k] ngrams_eq [of n words]
  by (simp add: extract_phrases_default_n_def)

theorem ngram_window_default_witness:
  "int (length (tokenize_words ''python sql'')) < 3
   \<and> extract_phrases ''python sql'' 3 25 = []
   \<and> (0::int) < 2
   \<and> ngrams [''python'', ''sql'', ''aws''] 2 = [''python sql'', ''sql aws'']"
proof -
  have h1: "int (length (tokenize_words ''python sql'')) < 3" by code_simp
  have h2: "(0::int) < 2" by simp
  have e: "map (\<lambda>i. join (take (nat 2) (drop i [''python'', ''sql'', ''aws''])))
             [0 ..< Suc (length [''python'', ''sql'', ''aws'']) - nat 2]
           = [''python sql'', ''sql aws'']"
    by code_simp
  have a: "extract_phrases ''python sql'' 3 25 = []"
    using h1 ngram_window_default [of "''python sql''" 3 25 "[]"] by blast
  have b: "ngrams [''python'', ''sql'', ''aws''] 2
             = map (\<lambda>i. join (take (nat 2) (drop i [''python'', ''sql'', ''aws''])))
                 [0 ..< Suc (length [''python'', ''sql'', ''aws'']) - nat 2]"
    using h2 ngram_window_default [of "''python sql''" 2 25 "[''python'', ''sql'', ''aws'']"]
    by blast
  have c: "ngrams [''python'', ''sql'', ''aws''] 2 = [''python sql'', ''sql aws'']"
    using b e by (rule trans)
  show ?thesis using h1 a h2 c by blast
qed

text \<open>
  The claim as stated fails for the default window: a text of two tokens, fewer than 3,
  yields a phrase.
\<close>

theorem default_window_counterexample:
  "length (tokenize_words ''python sql'') < 3
   \<and> extract_phrases ''python sql'' extract_phrases_default_n extract_phrases_default_top_k
       = [''python sql'']"
  by code_simp

lemma filter_take_le: "length (filter P (take m xs)) \<le> length (filter P xs)"
proof -
  have "filter P xs = filter P (take m xs) @ filter P (drop m xs)"
    by (metis append_take_drop_id filter_append)
  then show ?thesis by simp
qed

lemma extract_phrases_anchor_bound:
  "length (filter (\<lambda>q. anchor q = a) (extract_phrases text n top_k)) \<le> 2"
proof -
  let ?r = "rerank_phrases_diverse (candidate_phrases text n) 2"
  have "length (filter (\<lambda>q. anchor q = a) (extract_phrases text n top_k))
          \<le> length (filter (\<lambda>q. anchor q = a) ?r)"
    by (simp add: extract_phrases_def Let_def slice_0 filter_take_le)
  moreover have "int (length (filter (\<lambda>q. anchor q = a) ?r)) \<le> 2"
    using rerank_anchor_bound [of a "candidate_phrases text n" 2] by simp
  ultimately show ?thesis by linarith
qed

text \<open>
  Claim C3, as amended. The diversity rerank has one call site, in \<open>extract_phrases\<close>, with
  cap 2. The phrase coverage takes its phrases from \<open>extract_phrases\<close> (window 3, top 25),
  so cap 2 holds there too: no anchor has more than two phrases among the extracted
  phrases, nor among the overlap and missing phrases of the coverage together. Cap 3 is
  only the default of the parameter, which no call uses.
\<close>

theorem coverage_rerank_cap_two:
  "extract_phrases text n top_k
     = slice (rerank_phrases_diverse (candidate_phrases text n) 2) 0 top_k
   \<and> snd (phrase_coverage resume_text job_text)
       = (filter (\<lambda>p. sublist p (normalize (Some resume_text))) (extract_phrases job_text 3 25),
          filter (\<lambda>p. \<not> sublist p (normalize (Some resume_text))) (extract_phrases job_text 3 25))
   \<and> length (filter (\<lambda>q. anchor q = a) (extract_phrases text n top_k)) \<le> 2
   \<and> length (filter (\<lambda>q. anchor q = a) (fst (snd (phrase_coverage resume_text job_text))))
       + length (filter (\<lambda>q. anchor q = a) (snd (snd (phrase_coverage resume_text job_text))))
       \<le> 2
   \<and> rerank_default_max_per_token = 3"
proof (intro conjI)
  show "extract_phrases text n top_k
     = slice (rerank_phrases_diverse (candidate_phrases text n) 2) 0 top_k"
    by (simp add: extract_phrases_def Let_def)
  show s: "snd (phrase_coverage resume_text job_text)
       = (filter (\<lambda>p. sublist p (normalize (Some resume_text))) (extract_phrases job_text 3 25),
          filter (\<lambda>p. \<not> sublist p (normalize (Some resume_text))) (extract_phrases job_text 3 25))"
    by (simp add: phrase_coverage_def Let_def)
  show "length (filter (\<lambda>q. anchor q = a) (extract_phrases text n top_k)) \<le> 2"
    by (rule extract_phrases_anchor_bound)
  let ?J = "extract_phrases job_text 3 25"
  let ?in = "\<lambda>p. sublist p (normalize (Some resume_text))"
  have "length (filter (\<lambda>q. anchor q = a) (filter ?in ?J))
          + length (filter (\<lambda>q. anchor q = a) (filter (\<lambda>p. \<not> ?in p) ?J))
        = length (filter ?in (filter (\<lambda>q. anchor q = a) ?J))
          + length (filter (\<lambda>p. \<not> ?in p) (filter (\<lambda>q. anchor q = a) ?J))"
    by (simp add: conj_commute)
  also have "\<dots> = length (filter (\<lambda>q. anchor q = a) ?J)"
    by (rule sum_length_filter_compl)
  also have "\<dots> \<le> 2" by (rule extract_phrases_anchor_bound)
  finally show "length (filter (\<lambda>q. anchor q = a) (fst (snd (phrase_coverage resume_text job_text))))
       + length (filter (\<lambda>q. anchor q = a) (snd (snd (phrase_coverage resume_text job_text))))
       \<le> 2"
    by (simp add: s)
  show "rerank_default_max_per_token = 3" by (simp add: rerank_default_max_per_token_def)
qed

text \<open>
  The claim as stated fails: on this job text three candidates share the anchor
  \<open>python\<close>; a rerank with cap 3 would keep the three, the phrase coverage works on two.
\<close>

theorem coverage_rerank_cap_counterexample:
  "snd (snd (phrase_coverage [] ''abc def python ghi jkl''))
     = [''abc def python'', ''def python ghi'']
   \<and> fst (snd (phrase_coverage [] ''abc def python ghi jkl'')) = []
   \<and> spec_coverage_phrases ''abc def python ghi jkl''
       = [''abc def python'', ''def python ghi'', ''python ghi jkl'']"
  by code_simp

subsection \<open>Coverage of a text against itself\<close>

lemma join_append:
  "xs \<noteq> [] \<Longrightarrow> ys \<noteq> [] \<Longrightarrow> join (xs @ ys) = join xs @ '' '' @ join ys"
proof (induction xs rule: join.induct)
  case 1
  then show ?case by simp
next
  case (2 w)
  then show ?case by (cases ys) simp_all
next
  case (3 w v vs)
  then show ?case by simp
qed

lemma sublist_join_mid: "ys \<noteq> [] \<Longrightarrow> sublist (join ys) (join (xs @ ys @ zs))"
proof -
  assume ys: "ys \<noteq> []"
  have a: "sublist (join ys) (join (ys @ zs))"
  proof (cases "zs = []")
    case True
    then show ?thesis by simp
  next
    case False
    then have "join (ys @ zs) = [] @ join ys @ ('' '' @ join zs)"
      using ys by (simp add: join_append)
    then show ?thesis unfolding sublist_def by blast
  qed
  show ?thesis
  proof (cases "xs = []")
    case True
    then show ?thesis using a by simp
  next
    case False
    have "ys @ zs \<noteq> []" using ys by simp
    then have "join (xs @ ys @ zs) = (join xs @ '' '') @ join (ys @ zs)"
      using False by (simp add: join_append)
    moreover obtain u v where "join (ys @ zs) = u @ join ys @ v"
      using a unfolding sublist_def by blast
    ultimately have "join (xs @ ys @ zs) = ((join xs @ '' '') @ u) @ join ys @ v"
      by simp
    then show ?thesis unfolding sublist_def by blast
  qed
qed

lemma ngrams_sublist_join:
  assumes "p \<in> set (ngrams words 3)"
  shows "sublist p (join words)"
proof -
  have "ngrams words 3
          = map (\<lambda>i. join (take (nat 3) (drop i words))) [0 ..< Suc (length words) - nat 3]"
    by (rule ngrams_eq) simp
  then obtain i where i: "i < Suc (length words) - 3" and p: "p = join (take 3 (drop i words))"
    using assms by auto
  have ne: "take 3 (drop i words) \<noteq> []" using i by simp
  have "drop i words = take 3 (drop i words) @ drop 3 (drop i words)"
    by (simp only: append_take_drop_id)
  then have "take i words @ drop i words
               = take i words @ take 3 (drop i words) @ drop 3 (drop i words)"
    by (rule arg_cong)
  then have "words = take i words @ take 3 (drop i words) @ drop 3 (drop i words)"
    by (simp only: append_take_drop_id)
  then have "join words = join (take i words @ take 3 (drop i words) @ drop 3 (drop i words))"
    by (rule arg_cong)
  moreover have "sublist (join (take 3 (drop i words)))
      (join (take i words @ take 3 (drop i words) @ drop 3 (drop i words)))"
    using ne by (rule sublist_join_mid)
  ultimately show ?thesis unfolding p by (simp only:)
qed

lemma set_freq_bump: "fst ` set (freq_bump p freq) = insert p (fst ` set freq)"
  by (induction p freq rule: freq_bump.induct) auto

lemma set_count_freq_acc:
  "fst ` set (foldl (\<lambda>freq p. freq_bump p freq) acc phrases) = fst ` set acc \<union> set phrases"
  by (induction phrases arbitrary: acc) (simp_all add: set_freq_bump)

lemma set_count_freq: "fst ` set (count_freq phrases) = set phrases"
  by (simp add: count_freq_def set_count_freq_acc)

lemma set_candidate_phrases:
  "set (candidate_phrases text n) \<subseteq> set (ngrams (tokenize_words text) n)"
proof -
  let ?freq = "count_freq (ngrams (tokenize_words text) n)"
  let ?items = "sort_key (\<lambda>x. (- snd x, fst x)) ?freq"
  let ?F1 = "filter is_good_phrase (map fst (filter (\<lambda>(p, cnt). 1 < cnt) ?items))"
  let ?F2 = "filter is_good_phrase (map fst ?items)"
  have items: "fst ` set ?items = set (ngrams (tokenize_words text) n)"
    by (simp add: set_count_freq)
  have 1: "set ?F1 \<subseteq> fst ` set ?items" by auto
  have 2: "set ?F2 \<subseteq> fst ` set ?items" by auto
  have c: "candidate_phrases text n = (if length ?F1 < 10 then ?F2 else ?F1)"
    by (simp only: candidate_phrases_def Let_def)
  have "set (candidate_phrases text n) \<subseteq> fst ` set ?items"
  proof (cases "length ?F1 < 10")
    case True
    then have "candidate_phrases text n = ?F2" using c by (simp only: if_True)
    then show ?thesis using 2 by (simp only:)
  next
    case False
    then have "candidate_phrases text n = ?F1" using c by (simp only: if_False)
    then show ?thesis using 1 by (simp only:)
  qed
  then show ?thesis using items by (simp only:)
qed

lemma set_rerank: "set (rerank_phrases_diverse phrases cap) \<subseteq> set phrases"
  using rerank_subseq [of phrases cap] by (auto dest: list_emb_set)

lemma set_extract_phrases:
  "set (extract_phrases text n top_k) \<subseteq> set (ngrams (tokenize_words text) n)"
proof -
  have "set (extract_phrases text n top_k)
          \<subseteq> set (rerank_phrases_diverse (candidate_phrases text n) 2)"
    by (simp add: extract_phrases_def Let_def slice_0 set_take_subset)
  then show ?thesis using set_rerank set_candidate_phrases by blast
qed

text \<open>
  Claim C2, as amended. For every text whose normalized form is exactly its tokens joined
  by single spaces (no punctuation, no stopword, no word shorter than three characters),
  if the phrase extractor (window 3, top 25) yields a phrase, the phrase coverage of the
  text against itself is 1.
\<close>

theorem self_coverage_one:
  assumes "normalize (Some text) = join (tokenize_words text)"
    and "extract_phrases text 3 25 \<noteq> []"
  shows "fst (phrase_coverage text text) = 1"
proof -
  let ?J = "extract_phrases text 3 25"
  have "\<forall>p \<in> set ?J. sublist p (normalize (Some text))"
  proof
    fix p assume "p \<in> set ?J"
    then have "p \<in> set (ngrams (tokenize_words text) 3)"
      using set_extract_phrases [of "text" 3 25] by blast
    then have "sublist p (join (tokenize_words text))" by (rule ngrams_sublist_join)
    then show "sublist p (normalize (Some text))" by (simp only: assms(1))
  qed
  then have "filter (\<lambda>p. sublist p (normalize (Some text))) ?J = ?J"
    by (simp add: filter_id_conv)
  moreover have "length ?J \<noteq> 0" using assms(2) by simp
  ultimately show ?thesis by (simp add: phrase_coverage_def Let_def)
qed


theorem self_coverage_one_witness:
  "normalize (Some ''python sql aws'') = join (tokenize_words ''python sql aws'')
   \<and> extract_phrases ''python sql aws'' 3 25 = [''python sql aws'']
   \<and> fst (phrase_coverage ''python sql aws'' ''python sql aws'') = 1"
proof -
  have h1: "normalize (Some ''python sql aws'') = join (tokenize_words ''python sql aws'')"
    by code_simp
  have e: "extract_phrases ''python sql aws'' 3 25 = [''python sql aws'']"
    by code_simp
  have h2: "extract_phrases ''python sql aws'' 3 25 \<noteq> []"
    by (simp only: e) simp
  have "fst (phrase_coverage ''python sql aws'' ''python sql aws'') = 1"
    using h1 h2 by (rule self_coverage_one)
  then show ?thesis using h1 e by (intro conjI)
qed

text \<open>
  The claim as stated fails: in this text the tokens are separated by commas, the one
  phrase joins them by spaces, it is not a substring of the normalized text, and the
  coverage of the text against itself is 0.
\<close>

theorem self_coverage_counterexample:
  "extract_phrases ''python,sql,aws'' 3 25 = [''python sql aws'']
   \<and> normalize (Some ''python,sql,aws'') = ''python,sql,aws''
   \<and> fst (phrase_coverage ''python,sql,aws'' ''python,sql,aws'') = 0"
  by code_simp

end
